theory Spec2Isabelle
  imports Complex_Main
begin

section \<open>Data model\<close>

text \<open>
  A \<open>speech_utils.Word\<close> is a Python dict with the keys \<open>'word'\<close>, \<open>'start_time'\<close> and
  \<open>'end_time'\<close>. The text is a \<open>str\<close>, modelled as a list of characters; the two times are
  Python floats, that is IEEE 754 binary64 numbers. A finite one is a real number, so the
  fields are of type \<open>real\<close>; the values that are doubles are those that \<open>is_double\<close>
  below holds of, and every arithmetic operation of the source rounds its exact result
  with \<open>round_double\<close>. A \<open>Subtitle\<close> is a sequence of Words.

  The source mutates the dicts it is handed (\<open>word['word'] = ...\<close>,
  \<open>prev_sub[-1]['end_time'] = ...\<close>). The model passes the updated values on instead, which
  is the same as long as the word source hands out a fresh dict per word, as
  \<open>read_words\<close> and \<open>audio_to_words\<close> do.
\<close>

record Word =
  word :: string
  start_time :: real
  end_time :: real

type_synonym Subtitle = "Word list"

text \<open>
  The exceptions the pipeline can raise by itself. \<open>IndexError\<close> is an index into an empty
  list. \<open>RuntimeError\<close> is what the interpreter (PEP 479, Python 3.7 and later) turns a
  \<open>StopIteration\<close> into that escapes from the body of a generator.
\<close>

datatype error = IndexError | RuntimeError

text \<open>
  A generator is modelled by what its consumer sees: the items it yields, in order, and
  then either normal exhaustion (\<open>None\<close>) or the exception it raises (\<open>Some e\<close>).
\<close>

type_synonym 'a generator = "'a list \<times> error option"

section \<open>Float arithmetic\<close>

text \<open>
  The number of binary digits of a natural number, and with it the binary exponent of a
  positive real \<open>x\<close>: the \<open>e\<close> with \<open>2 ^ e \<le> x < 2 ^ (e + 1)\<close>.
\<close>

fun bits :: "nat \<Rightarrow> nat" where
  "bits n = (if n = 0 then 0 else Suc (bits (n div 2)))"

declare bits.simps [simp del]

definition binary_exponent :: "real \<Rightarrow> int" where
  "binary_exponent x =
     (if 1 \<le> x then int (bits (nat \<lfloor>x\<rfloor>)) - 1
      else - int (bits (nat (\<lceil>1 / x\<rceil> - 1))))"

text \<open>Rounding to the nearest integer, a tie going to the even one.\<close>

definition round_half_even :: "real \<Rightarrow> int" where
  "round_half_even y =
     (let f = \<lfloor>y\<rfloor>
      in if y - of_int f < 1 / 2 then f
         else if y - of_int f > 1 / 2 then f + 1
         else if even f then f else f + 1)"

text \<open>
  A double has 53 significant bits, so the doubles around \<open>x\<close> are the multiples of two to
  the binary exponent of \<open>x\<close> less 52; below the smallest normal exponent, -1022, the
  spacing stays that of the subnormal numbers. \<open>round_double\<close> is the rounding every
  operation applies to its exact result (to nearest, ties to even). Infinities and NaN
  are no real numbers, and the exponent has no upper end here: a result beyond the largest
  double, which the machine turns into an infinity, is in the model a real number beyond
  every double, and compares to the doubles as the infinity does. So \<open>is_double\<close> holds
  of every double, and the adjuster, which only compares what it has computed, takes the
  same branches in the model as on the machine.
\<close>

definition ulp_exponent :: "real \<Rightarrow> int" where
  "ulp_exponent x = max (binary_exponent \<bar>x\<bar>) (- 1022) - 52"

definition round_double :: "real \<Rightarrow> real" where
  "round_double x =
     (if x = 0 then 0
      else of_int (round_half_even (x / 2 powi ulp_exponent x)) * 2 powi ulp_exponent x)"

definition is_double :: "real \<Rightarrow> bool" where
  "is_double x = (round_double x = x)"

text \<open>The operators \<open>+\<close>, \<open>-\<close>, \<open>*\<close> and \<open>/\<close> on floats.\<close>

definition fadd :: "real \<Rightarrow> real \<Rightarrow> real" where
  "fadd x y = round_double (x + y)"

definition fsub :: "real \<Rightarrow> real \<Rightarrow> real" where
  "fsub x y = round_double (x - y)"

definition fmul :: "real \<Rightarrow> real \<Rightarrow> real" where
  "fmul x y = round_double (x * y)"

definition fdiv :: "real \<Rightarrow> real \<Rightarrow> real" where
  "fdiv x y = round_double (x / y)"

section \<open>\<open>_words_to_subtitles\<close>\<close>

definition CRLF :: string where
  "CRLF = [CHR 0x0D, CHR 0x0A]"

definition allowed_lines :: int where
  "allowed_lines = 2"

text \<open>\<open>s.endswith(suf)\<close> and \<open>s.endswith((suf1, suf2, ...))\<close>.\<close>

definition endswith :: "string \<Rightarrow> string \<Rightarrow> bool" where
  "endswith s suf = (length suf \<le> length s \<and> drop (length s - length suf) s = suf)"

definition endswith_any :: "string \<Rightarrow> string list \<Rightarrow> bool" where
  "endswith_any s sufs = list_ex (endswith s) sufs"

text \<open>The three local variables of the loop: the buffer and the two counters.\<close>

record seg_state =
  subtitle :: Subtitle
  len_line :: int
  line_index :: int

text \<open>
  Lines 80 to 88: the break decision. The result is \<open>add_line\<close>, the buffer (with the word
  appended in the sentence-end branch) and the word still to be placed (\<open>None\<close> once the
  sentence-end branch has taken it).
\<close>

definition decide_break :: "int \<Rightarrow> seg_state \<Rightarrow> Word \<Rightarrow> bool \<times> seg_state \<times> Word option" where
  "decide_break split_on_length_gt st w =
     (if len_line st + int (length (word w)) > split_on_length_gt then (True, st, Some w)
      else if endswith_any (word w) [''.'', ''?'', ''!'']
        then (True, st\<lparr>subtitle := subtitle st @ [w]\<rparr>, None)
      else (False, st, Some w))"

text \<open>
  Lines 90 to 102: the break itself. Either the buffer is yielded and everything is reset,
  or the marker is appended to the text of \<open>subtitle[-1]\<close>, which raises \<open>IndexError\<close> on an
  empty buffer.
\<close>

definition apply_break :: "bool \<Rightarrow> seg_state \<Rightarrow> error + (Subtitle option \<times> seg_state)" where
  "apply_break add_line st =
     (if add_line then
        (if line_index st + 1 = allowed_lines
         then Inr (Some (subtitle st), \<lparr>subtitle = [], len_line = 0, line_index = 0\<rparr>)
         else (if subtitle st = [] then Inl IndexError
               else Inr (None,
                 \<lparr>subtitle = butlast (subtitle st)
                     @ [(last (subtitle st))\<lparr>word := word (last (subtitle st)) @ CRLF\<rparr>],
                  len_line = 0,
                  line_index = line_index st + 1\<rparr>)))
      else Inr (None, st))"

text \<open>Lines 104 to 107: the word, if still there, gets its trailing space and is buffered.\<close>

definition place_word :: "Word option \<Rightarrow> seg_state \<Rightarrow> seg_state" where
  "place_word wo st =
     (case wo of
        None \<Rightarrow> st
      | Some w \<Rightarrow>
          (let w' = w\<lparr>word := word w @ '' ''\<rparr>
           in st\<lparr>len_line := len_line st + int (length (word w')),
                 subtitle := subtitle st @ [w']\<rparr>))"

text \<open>One pass through the body of the \<open>for\<close> loop: the cue yielded, if any, and the new state.\<close>

definition seg_step :: "int \<Rightarrow> seg_state \<Rightarrow> Word \<Rightarrow> error + (Subtitle option \<times> seg_state)" where
  "seg_step split_on_length_gt st w =
     (case decide_break split_on_length_gt st w of
        (add_line, st1, wo) \<Rightarrow>
          (case apply_break add_line st1 of
             Inl e \<Rightarrow> Inl e
           | Inr (y, st2) \<Rightarrow> Inr (y, place_word wo st2)))"

fun seg_loop :: "int \<Rightarrow> seg_state \<Rightarrow> Word list \<Rightarrow> Subtitle generator" where
  "seg_loop L st [] = ((if subtitle st \<noteq> [] then [subtitle st] else []), None)"
| "seg_loop L st (w # ws) =
     (case seg_step L st w of
        Inl e \<Rightarrow> ([], Some e)
      | Inr (y, st') \<Rightarrow>
          (case seg_loop L st' ws of
             (out, err) \<Rightarrow> ((case y of None \<Rightarrow> [] | Some c \<Rightarrow> [c]) @ out, err)))"

definition init_state :: seg_state where
  "init_state = \<lparr>subtitle = [], len_line = 0, line_index = 0\<rparr>"

definition words_to_subtitles :: "Word list \<Rightarrow> real \<Rightarrow> int \<Rightarrow> Subtitle generator" where
  "words_to_subtitles words split_on_pause_gt split_on_length_gt =
     seg_loop split_on_length_gt init_state words"

section \<open>\<open>_adjust_duration\<close>\<close>

text \<open>\<open>prev_sub[-1]['end_time'] = v\<close> on a non-empty cue.\<close>

definition set_end_time :: "Subtitle \<Rightarrow> real \<Rightarrow> Subtitle" where
  "set_end_time sub v = butlast sub @ [(last sub)\<lparr>end_time := v\<rparr>]"

text \<open>
  The \<open>for\<close> loop with its variables \<open>prev_sub\<close> and \<open>this_sub\<close>, and the statement after it.
  \<open>up\<close> is how the upstream generator ends. Indexing an empty cue raises \<open>IndexError\<close>:
  \<open>prev_sub[-1]\<close> at line 126, \<open>this_sub[0]\<close> at line 135. The duration of line 126 is a
  float subtraction and \<open>prev_start_plus_min\<close> of line 134 a float addition; the
  comparisons are exact.
\<close>

fun adjust_loop ::
  "real \<Rightarrow> error option \<Rightarrow> Subtitle \<Rightarrow> Subtitle option \<Rightarrow> Subtitle list \<Rightarrow> Subtitle generator" where
  "adjust_loop m up prev_sub this_sub [] =
     (case up of
        Some e \<Rightarrow> ([], Some e)
      | None \<Rightarrow>
          (case this_sub of
             None \<Rightarrow> ([], None)
           | Some t \<Rightarrow> (if t \<noteq> [] then [t] else [], None)))"
| "adjust_loop m up prev_sub this_sub (t # rest) =
     (if prev_sub = [] then ([], Some IndexError)
      else if fsub (end_time (last prev_sub)) (start_time (hd prev_sub)) \<ge> m
        then (case adjust_loop m up t (Some t) rest of (out, err) \<Rightarrow> (prev_sub # out, err))
      else if t = [] then ([], Some IndexError)
      else
        (let prev_start_plus_min = fadd (start_time (hd prev_sub)) m;
             prev_sub' =
               (if prev_start_plus_min > start_time (hd t)
                then set_end_time prev_sub (start_time (hd t))
                else set_end_time prev_sub prev_start_plus_min)
         in (case adjust_loop m up t (Some t) rest of (out, err) \<Rightarrow> (prev_sub' # out, err))))"

text \<open>
  Line 123: \<open>next(subtitles)\<close> on an exhausted iterator raises \<open>StopIteration\<close> inside the
  generator body, which the consumer receives as \<open>RuntimeError\<close>; an exception of the
  upstream generator passes through unchanged.
\<close>

definition adjust_duration :: "Subtitle generator \<Rightarrow> real \<Rightarrow> Subtitle generator" where
  "adjust_duration subtitles min_sub_duration =
     (case subtitles of
        ([], None) \<Rightarrow> ([], Some RuntimeError)
      | ([], Some e) \<Rightarrow> ([], Some e)
      | (first # rest, up) \<Rightarrow> adjust_loop min_sub_duration up first None rest)"

section \<open>\<open>_write_srt\<close> and \<open>_srt_fmt_time\<close>\<close>

text \<open>Decimal digits of a natural number, \<open>str\<close> of an int, and the format \<open>{:0w}\<close>.\<close>

fun digits :: "nat \<Rightarrow> string" where
  "digits n =
     (if n < 10 then [''0123456789'' ! n]
      else digits (n div 10) @ [''0123456789'' ! (n mod 10)])"

declare digits.simps [simp del]

definition str_int :: "int \<Rightarrow> string" where
  "str_int i = (if i < 0 then ''-'' @ digits (nat (- i)) else digits (nat i))"

definition fmt_zero :: "nat \<Rightarrow> int \<Rightarrow> string" where
  "fmt_zero w i =
     (let d = digits (nat \<bar>i\<bar>)
      in if i < 0 then ''-'' @ replicate (w - 1 - length d) (CHR ''0'') @ d
         else replicate (w - length d) (CHR ''0'') @ d)"

text \<open>
  \<open>int(x)\<close> of a float truncates towards zero. The C function \<open>fmod\<close> gives the remainder
  of the quotient truncated towards zero, and gives it exactly.
\<close>

definition py_int :: "real \<Rightarrow> int" where
  "py_int x = (if x \<ge> 0 then \<lfloor>x\<rfloor> else \<lceil>x\<rceil>)"

definition c_fmod :: "real \<Rightarrow> real \<Rightarrow> real" where
  "c_fmod x y = x - y * of_int (py_int (x / y))"

text \<open>
  The float operators \<open>x % y\<close> and \<open>x // y\<close> as the interpreter computes them, for a divisor
  other than zero (the divisors of the source are the constants 3600, 60 and 1). The
  remainder is that of \<open>fmod\<close>, moved by the divisor when its sign is not the divisor's.
  The quotient is \<open>(x - r) / y\<close> in float arithmetic, \<open>r\<close> being the remainder of
  \<open>fmod\<close>, less one in that same case, and then snapped to the nearest integral value.
\<close>

definition pymod :: "real \<Rightarrow> real \<Rightarrow> real" where
  "pymod x y =
     (let r = c_fmod x y
      in if r \<noteq> 0 \<and> ((y < 0) \<noteq> (r < 0)) then fadd r y else r)"

definition floordiv :: "real \<Rightarrow> real \<Rightarrow> real" where
  "floordiv x y =
     (let r = c_fmod x y;
          q0 = fdiv (fsub x r) y;
          q = (if r \<noteq> 0 \<and> ((y < 0) \<noteq> (r < 0)) then fsub q0 1 else q0)
      in if q \<noteq> 0
         then (let fl = of_int \<lfloor>q\<rfloor> in if fsub q fl > 0.5 then fadd fl 1 else fl)
         else 0)"

definition srt_fmt_time :: "real \<Rightarrow> string" where
  "srt_fmt_time sec =
     fmt_zero 2 (py_int (floordiv sec 3600)) @ '':''
     @ fmt_zero 2 (py_int (floordiv (pymod sec 3600) 60)) @ '':''
     @ fmt_zero 2 (py_int (floordiv (pymod sec 60) 1)) @ '',''
     @ fmt_zero 3 (py_int (fmul (pymod sec 1) 1000))"

text \<open>\<open>''.join(record['word'] for record in fragment)\<close>.\<close>

definition sentence :: "Subtitle \<Rightarrow> string" where
  "sentence fragment = concat (map word fragment)"

text \<open>
  The sink is the list of the strings written, one per \<open>srt_file.write\<close>, in order.
  \<open>fragment[0]\<close> raises \<open>IndexError\<close> on an empty cue.
\<close>

fun write_loop :: "nat \<Rightarrow> Subtitle list \<Rightarrow> string list \<times> error option" where
  "write_loop i [] = ([], None)"
| "write_loop i (fragment # rest) =
     (if fragment = [] then ([], Some IndexError)
      else
        (let srt_start_time = srt_fmt_time (start_time (hd fragment));
             srt_end_time = srt_fmt_time (end_time (last fragment))
         in (case write_loop (i + 1) rest of
               (out, err) \<Rightarrow>
                 ([str_int (int i + 1) @ [CHR 0x0A],
                   srt_start_time @ '' --> '' @ srt_end_time @ [CHR 0x0A],
                   sentence fragment @ [CHR 0x0A],
                   [CHR 0x0A]] @ out, err))))"

definition write_srt :: "Subtitle generator \<Rightarrow> string list \<times> error option" where
  "write_srt subtitles =
     (case subtitles of
        (cues, up) \<Rightarrow>
          (case write_loop 0 cues of
             (out, Some e) \<Rightarrow> (out, Some e)
           | (out, None) \<Rightarrow> (out, up)))"

section \<open>\<open>words_to_srt\<close>\<close>

text \<open>The three stages with their default parameters, as \<open>words_to_srt\<close> calls them.\<close>

definition words_to_srt :: "Word list \<Rightarrow> string list \<times> error option" where
  "words_to_srt words =
     write_srt (adjust_duration (words_to_subtitles words 1.0 32) 1.0)"

section \<open>Derived notions and inputs used in the statements\<close>

text \<open>
  The start of a cue is the start of its first word, its end the end of its last word
  (\<open>sub[0]['start_time']\<close> and \<open>sub[-1]['end_time']\<close> in the source).
\<close>

definition cue_start :: "Subtitle \<Rightarrow> real" where
  "cue_start sub = start_time (hd sub)"

definition cue_end :: "Subtitle \<Rightarrow> real" where
  "cue_end sub = end_time (last sub)"

text \<open>The number of physical lines of a text: one more than its line feeds.\<close>

definition physical_lines :: "string \<Rightarrow> nat" where
  "physical_lines s = Suc (count_list s (CHR 0x0A))"

text \<open>The sentence-end test of line 85.\<close>

definition sentence_end :: "Word \<Rightarrow> bool" where
  "sentence_end w = endswith_any (word w) [''.'', ''?'', ''!'']"

text \<open>
  The break rule in the specification's words, for comparison with \<open>decide_break\<close>: a break
  is decided if appending the word plus a trailing space would make the line length exceed
  the maximum, or the word ends a sentence; a word that ends a sentence is appended before
  the break.
\<close>

definition spec_add_line :: "int \<Rightarrow> seg_state \<Rightarrow> Word \<Rightarrow> bool" where
  "spec_add_line max_line_length st w =
     (len_line st + int (length (word w @ '' '')) > max_line_length \<or> sentence_end w)"

definition spec_appended_before_break :: "Word \<Rightarrow> bool" where
  "spec_appended_before_break w = sentence_end w"

text \<open>
  The example input of the specification. A decimal literal of the source text stands for
  the double nearest to it.
\<close>

definition fox_words :: "Word list" where
  "fox_words =
     [\<lparr>word = ''the'', start_time = 0, end_time = round_double 0.3\<rparr>,
      \<lparr>word = ''quick'', start_time = round_double 0.3, end_time = round_double 0.6\<rparr>,
      \<lparr>word = ''brown'', start_time = round_double 0.6, end_time = round_double 0.9\<rparr>,
      \<lparr>word = ''fox.'', start_time = round_double 0.9, end_time = round_double 1.3\<rparr>]"

text \<open>A word of 33 characters, and the state at the start of the second line of a cue.\<close>

definition long_word :: Word where
  "long_word = \<lparr>word = ''aaaaaaaaaaaaaaaaaaaaaaaaaaaaaaaaa'', start_time = 1, end_time = 2\<rparr>"

definition hi_word :: Word where
  "hi_word = \<lparr>word = ''Hi.'', start_time = 0, end_time = 1\<rparr>"

definition second_line_state :: seg_state where
  "second_line_state =
     \<lparr>subtitle = [hi_word\<lparr>word := ''Hi.'' @ CRLF\<rparr>], len_line = 0, line_index = 1\<rparr>"

text \<open>Four words of six characters, which fill a line up to 28, and the state after them.\<close>

definition six :: "real \<Rightarrow> Word" where
  "six t = \<lparr>word = ''aaaaaa'', start_time = t, end_time = t + 1\<rparr>"

definition line28_state :: seg_state where
  "line28_state =
     \<lparr>subtitle = map (\<lambda>t. (six t)\<lparr>word := ''aaaaaa ''\<rparr>) [0, 1, 2, 3],
      len_line = 28, line_index = 0\<rparr>"

text \<open>
  The number of line-separator markers in a text: the occurrences of CR LF, scanned from
  the left.
\<close>

fun count_markers :: "string \<Rightarrow> nat" where
  "count_markers (a # b # s) =
     (if [a, b] = CRLF then Suc (count_markers s) else count_markers (b # s))"
| "count_markers s = 0"

text \<open>
  What the adjuster may do to a cue: the cue that comes out is the cue that went in with the
  end time of its last word set, to a value that is not below the old one.
\<close>

definition never_shrunk :: "Subtitle \<Rightarrow> Subtitle \<Rightarrow> bool" where
  "never_shrunk c c' = (c' = set_end_time c (cue_end c') \<and> cue_end c \<le> cue_end c')"

text \<open>
  The invariant of the segmenter's loop: at most one line is complete, a complete line means
  a non-empty buffer, and the buffer holds no more line feeds than complete lines.
\<close>

definition seg_inv :: "seg_state \<Rightarrow> bool" where
  "seg_inv st =
     ((line_index st = 0 \<or> line_index st = 1)
      \<and> (line_index st = 1 \<longrightarrow> subtitle st \<noteq> [])
      \<and> int (count_list (sentence (subtitle st)) (CHR 0x0A)) \<le> line_index st)"

definition cue_ok :: "Subtitle \<Rightarrow> bool" where
  "cue_ok c = (c \<noteq> [] \<and> count_list (sentence c) (CHR 0x0A) \<le> 1)"

text \<open>
  Four cues that do not overlap: two short ones, the first followed closely (the next cue
  starts at 0.5) and the second with a large gap after it, then a long one and a last one.
  All their times are doubles as they stand.
\<close>

definition example_cues :: "Subtitle list" where
  "example_cues =
     [[\<lparr>word = ''a '', start_time = 0, end_time = 0.25\<rparr>],
      [\<lparr>word = ''b '', start_time = 0.5, end_time = 0.75\<rparr>],
      [\<lparr>word = ''c '', start_time = 5, end_time = 7\<rparr>],
      [\<lparr>word = ''d '', start_time = 7, end_time = 7.5\<rparr>]]"

text \<open>Two pairs of cues in which the first cue ends after the second has started.\<close>

definition long_overlap_cues :: "Subtitle list" where
  "long_overlap_cues =
     [[\<lparr>word = ''a '', start_time = 0, end_time = 5\<rparr>],
      [\<lparr>word = ''b '', start_time = 1, end_time = 2\<rparr>]]"

definition short_overlap_cues :: "Subtitle list" where
  "short_overlap_cues =
     [[\<lparr>word = ''a '', start_time = 0, end_time = 0.5\<rparr>],
      [\<lparr>word = ''b '', start_time = 0.25, end_time = 0.375\<rparr>]]"

text \<open>
  Two pairs of cues with times that are no doubles as written. In the first the duration
  of the first cue, 1.2 - 0.2, comes out as exactly 1.0 in float arithmetic; in the second
  1.4 - 0.4 comes out below 1.0.
\<close>

definition rounded_up_cues :: "Subtitle list" where
  "rounded_up_cues =
     [[\<lparr>word = ''a '', start_time = round_double 0.2, end_time = round_double 1.2\<rparr>],
      [\<lparr>word = ''b '', start_time = 0.5, end_time = 0.75\<rparr>]]"

definition rounded_down_cues :: "Subtitle list" where
  "rounded_down_cues =
     [[\<lparr>word = ''a '', start_time = round_double 0.4, end_time = round_double 1.4\<rparr>],
      [\<lparr>word = ''b '', start_time = 1, end_time = 3\<rparr>]]"

text \<open>Two more words for the break decision at line length 28.\<close>

definition abcd :: Word where
  "abcd = \<lparr>word = ''abcd'', start_time = 4, end_time = 5\<rparr>"

definition abcd_stop :: Word where
  "abcd_stop = \<lparr>word = ''abcd.'', start_time = 4, end_time = 5\<rparr>"

text \<open>
  Undoing what the segmenter adds to a word's text: a marker at the end is taken off, then
  one space at the end.
\<close>

definition strip_marker :: "string \<Rightarrow> string" where
  "strip_marker s = (if endswith s CRLF then take (length s - length CRLF) s else s)"

definition strip_space :: "string \<Rightarrow> string" where
  "strip_space s = (if endswith s '' '' then take (length s - 1) s else s)"

definition strip_inserted :: "string \<Rightarrow> string" where
  "strip_inserted s = strip_space (strip_marker s)"

definition restore :: "Word \<Rightarrow> Word" where
  "restore w = w\<lparr>word := strip_inserted (word w)\<rparr>"

text \<open>
  The invariant behind the round trip: at most one line is complete, and while none is,
  the last word of the buffer ends in its trailing space.
\<close>

definition rt_inv :: "seg_state \<Rightarrow> bool" where
  "rt_inv st =
     ((line_index st = 0 \<or> line_index st = 1)
      \<and> (line_index st = 0 \<longrightarrow> subtitle st \<noteq> [] \<longrightarrow>
           endswith (word (last (subtitle st))) '' ''))"

text \<open>A single word, which makes a single cue.\<close>

definition hello_word :: Word where
  "hello_word = \<lparr>word = ''hello'', start_time = 0, end_time = 1\<rparr>"

section \<open>Rounding\<close>

text \<open>
  What the proofs below need of float arithmetic: rounding never crosses a double. A
  double below the exact result is below the rounded one, and likewise above.
\<close>

lemma bits_bounds: "0 < n \<Longrightarrow> 2 ^ (bits n - 1) \<le> n \<and> n < 2 ^ bits n"
proof (induction n rule: bits.induct)
  case (1 n)
  show ?case
  proof (cases "n div 2 = 0")
    case True
    with "1.prems" have "n = 1" by (cases n) auto
    then show ?thesis by (simp add: bits.simps)
  next
    case False
    then have pos: "0 < n div 2" by simp
    from "1.IH" [OF _ pos] "1.prems"
    have ih: "2 ^ (bits (n div 2) - 1) \<le> n div 2" "n div 2 < 2 ^ bits (n div 2)"
      by simp_all
    from pos have bpos: "0 < bits (n div 2)"
      by (simp add: bits.simps)
    have b: "bits n = Suc (bits (n div 2))"
      using "1.prems" by (simp add: bits.simps)
    from bpos have "(2::nat) ^ (bits n - 1) = 2 * 2 ^ (bits (n div 2) - 1)"
      by (cases "bits (n div 2)") (simp_all add: b)
    with ih(1) have lo: "2 ^ (bits n - 1) \<le> n" by linarith
    from ih(2) have "n < 2 * 2 ^ bits (n div 2)" by linarith
    with lo b show ?thesis by simp
  qed
qed

lemma binary_exponent_bounds:
  assumes "0 < x"
  shows "2 powi binary_exponent x \<le> x \<and> x < 2 powi (binary_exponent x + 1)"
proof (cases "1 \<le> x")
  case True
  let ?n = "nat \<lfloor>x\<rfloor>"
  from True have n: "0 < ?n" by simp
  from bits_bounds [OF n] have lo: "2 ^ (bits ?n - 1) \<le> ?n" and hi: "?n < 2 ^ bits ?n"
    by simp_all
  from n have bp: "0 < bits ?n" by (simp add: bits.simps)
  have e: "binary_exponent x = int (bits ?n - 1)"
    using True bp by (simp add: binary_exponent_def)
  have e1: "binary_exponent x + 1 = int (bits ?n)"
    using True bp by (simp add: binary_exponent_def)
  from lo have "(2::real) ^ (bits ?n - 1) \<le> real ?n"
    by (metis of_nat_le_iff of_nat_numeral of_nat_power)
  also have "real ?n \<le> x" using True by simp
  finally have l: "2 powi binary_exponent x \<le> x" by (simp add: e)
  from hi have "?n + 1 \<le> 2 ^ bits ?n" by linarith
  then have "real (?n + 1) \<le> (2::real) ^ bits ?n"
    by (metis of_nat_le_iff of_nat_numeral of_nat_power)
  moreover have "x < real (?n + 1)" using True by simp linarith
  ultimately have "x < 2 powi (binary_exponent x + 1)" by (simp add: e1)
  with l show ?thesis ..
next
  case False
  with assms have inv: "1 < 1 / x" by simp
  let ?c = "\<lceil>1 / x\<rceil>"
  let ?n = "nat (?c - 1)"
  from inv have c2: "2 \<le> ?c" by linarith
  then have n: "0 < ?n" by simp
  from bits_bounds [OF n] have lo: "2 ^ (bits ?n - 1) \<le> ?n" and hi: "?n < 2 ^ bits ?n"
    by simp_all
  from n have bp: "0 < bits ?n" by (simp add: bits.simps)
  have e: "binary_exponent x = - int (bits ?n)"
    using False by (simp add: binary_exponent_def)
  from hi have "?n + 1 \<le> 2 ^ bits ?n" by linarith
  then have "real (?n + 1) \<le> (2::real) ^ bits ?n"
    by (metis of_nat_le_iff of_nat_numeral of_nat_power)
  moreover have "1 / x \<le> real (?n + 1)" using c2 by simp linarith
  ultimately have "1 / x \<le> 2 ^ bits ?n" by linarith
  then have "1 / 2 ^ bits ?n \<le> x"
    using assms by (simp add: field_simps)
  then have l: "2 powi binary_exponent x \<le> x"
    by (simp add: e power_int_minus field_simps)
  from lo have "(2::real) ^ (bits ?n - 1) \<le> real ?n"
    by (metis of_nat_le_iff of_nat_numeral of_nat_power)
  moreover have "real ?n < 1 / x" using c2 by simp linarith
  ultimately have "(2::real) ^ (bits ?n - 1) < 1 / x" by linarith
  then have "x < 1 / 2 ^ (bits ?n - 1)"
    using assms by (simp add: field_simps)
  moreover have "binary_exponent x + 1 = - int (bits ?n - 1)"
    using bp by (simp add: e)
  ultimately have "x < 2 powi (binary_exponent x + 1)"
    by (simp add: power_int_minus field_simps)
  with l show ?thesis ..
qed

lemma binary_exponent_mono:
  assumes "0 < x" and "x \<le> y"
  shows "binary_exponent x \<le> binary_exponent y"
proof -
  from assms have y: "0 < y" by simp
  from binary_exponent_bounds [OF assms(1)] binary_exponent_bounds [OF y] assms(2)
  have lt: "(2::real) powi binary_exponent x < 2 powi (binary_exponent y + 1)"
    by linarith
  have "binary_exponent x < binary_exponent y + 1"
  proof (rule ccontr)
    assume "\<not> binary_exponent x < binary_exponent y + 1"
    then have "binary_exponent y + 1 \<le> binary_exponent x" by simp
    then have "(2::real) powi (binary_exponent y + 1) \<le> 2 powi binary_exponent x"
      by (rule power_int_increasing) simp
    with lt show False by simp
  qed
  then show ?thesis by simp
qed

lemma round_half_even_floor:
  "round_half_even z = \<lfloor>z\<rfloor> \<or> round_half_even z = \<lfloor>z\<rfloor> + 1"
  by (simp add: round_half_even_def Let_def)

lemma round_half_even_of_int: "round_half_even (of_int k) = k"
  by (simp add: round_half_even_def)

lemma round_half_even_ge:
  assumes "of_int k \<le> z"
  shows "k \<le> round_half_even z"
proof -
  from assms have "k \<le> \<lfloor>z\<rfloor>" by (simp add: le_floor_iff)
  with round_half_even_floor [of z] show ?thesis by auto
qed

lemma round_half_even_le:
  assumes "z \<le> of_int k"
  shows "round_half_even z \<le> k"
proof (cases "z = of_int k")
  case True
  then show ?thesis by (simp add: round_half_even_of_int)
next
  case False
  with assms have "z < of_int k" by simp
  then have "\<lfloor>z\<rfloor> < k" by (simp add: floor_less_iff)
  with round_half_even_floor [of z] show ?thesis by auto
qed

lemma round_half_even_minus: "round_half_even (- z) = - round_half_even z"
proof (cases "z = of_int \<lfloor>z\<rfloor>")
  case True
  then obtain k where "z = of_int k" ..
  then have "- z = of_int (- k)" by simp
  then show ?thesis
    using \<open>z = of_int k\<close> by (simp only: round_half_even_of_int)
next
  case False
  then have c: "\<lceil>z\<rceil> = \<lfloor>z\<rfloor> + 1"
    by (metis ceiling_altdef)
  have f: "\<lfloor>- z\<rfloor> = - \<lfloor>z\<rfloor> - 1"
    using c by (simp add: ceiling_def)
  show ?thesis
    unfolding round_half_even_def Let_def f
    by (auto simp add: algebra_simps)
qed

lemma ulp_exponent_minus: "ulp_exponent (- x) = ulp_exponent x"
  by (simp add: ulp_exponent_def)

lemma round_double_minus: "round_double (- x) = - round_double x"
  by (simp add: round_double_def ulp_exponent_minus round_half_even_minus)

lemma is_double_minus: "is_double (- x) = is_double x"
  by (simp add: is_double_def round_double_minus)

lemma ulp_exponent_mono:
  assumes "0 < x" and "x \<le> y"
  shows "ulp_exponent x \<le> ulp_exponent y"
  using binary_exponent_mono [OF assms] assms by (simp add: ulp_exponent_def)

lemma round_double_nonneg: "0 \<le> y \<Longrightarrow> 0 \<le> round_double y"
  using round_half_even_ge [of 0 "y / 2 powi ulp_exponent y"]
  by (simp add: round_double_def)

text \<open>The power of two at the bottom of the binade of a larger number sits on its grid.\<close>

lemma binade_on_grid:
  assumes "0 < y" and "max e (- 1022) < binary_exponent y" and "e' = binary_exponent y"
  shows "\<exists>k. (2::real) powi e' = of_int k * 2 powi ulp_exponent y"
proof -
  from assms have u: "ulp_exponent y = e' - 52"
    using assms by (simp add: ulp_exponent_def)
  have "(2::real) powi (52 + (e' - 52)) = 2 powi 52 * 2 powi (e' - 52)"
    by (rule power_int_add) simp
  then have "(2::real) powi e' = of_int (2 ^ 52) * 2 powi ulp_exponent y"
    by (simp add: u)
  then show ?thesis by blast
qed

lemma round_double_lower_pos:
  assumes d: "0 < d" and dd: "is_double d" and le: "d \<le> y"
  shows "d \<le> round_double y"
proof -
  from d le have y: "0 < y" by simp
  let ?qd = "ulp_exponent d" and ?qy = "ulp_exponent y"
  have p: "(0::real) < 2 powi ?qy" by simp
  from dd d have dk: "d = of_int (round_half_even (d / 2 powi ?qd)) * 2 powi ?qd"
    by (simp add: is_double_def round_double_def)
  have ry: "round_double y = of_int (round_half_even (y / 2 powi ?qy)) * 2 powi ?qy"
    using y by (simp add: round_double_def)
  from ulp_exponent_mono [OF d le] have "?qd \<le> ?qy" .
  then consider "?qd = ?qy" | "?qd < ?qy" by linarith
  then show ?thesis
  proof cases
    case 1
    let ?k = "round_half_even (d / 2 powi ?qd)"
    from dk 1 have "of_int ?k * 2 powi ?qy \<le> y" using le by simp
    then have "of_int ?k \<le> y / 2 powi ?qy"
      using p by (simp add: field_simps)
    then have "?k \<le> round_half_even (y / 2 powi ?qy)"
      by (rule round_half_even_ge)
    then have "of_int ?k * 2 powi ?qy \<le> round_double y"
      unfolding ry using p by (simp add: mult_right_mono)
    with dk 1 show ?thesis by simp
  next
    case 2
    let ?ey = "binary_exponent y"
    from 2 d y have ex: "max (binary_exponent d) (- 1022) < ?ey"
      by (simp add: ulp_exponent_def abs_of_pos) linarith
    from binade_on_grid [OF y ex refl] obtain k where
      k: "(2::real) powi ?ey = of_int k * 2 powi ?qy" by blast
    from binary_exponent_bounds [OF y] have "2 powi ?ey \<le> y" by simp
    with k have "of_int k \<le> y / 2 powi ?qy"
      using p by (simp add: field_simps)
    then have "k \<le> round_half_even (y / 2 powi ?qy)"
      by (rule round_half_even_ge)
    then have "of_int k * 2 powi ?qy \<le> round_double y"
      unfolding ry using p by (simp add: mult_right_mono)
    with k have low: "2 powi ?ey \<le> round_double y" by simp
    from ex have "binary_exponent d + 1 \<le> ?ey" by simp
    then have "(2::real) powi (binary_exponent d + 1) \<le> 2 powi ?ey"
      by (rule power_int_increasing) simp
    with binary_exponent_bounds [OF d] low show ?thesis by linarith
  qed
qed

lemma round_double_upper_pos:
  assumes x: "0 < x" and dd: "is_double d" and le: "x \<le> d"
  shows "round_double x \<le> d"
proof -
  from x le have d: "0 < d" by simp
  let ?qd = "ulp_exponent d" and ?qx = "ulp_exponent x"
  have p: "(0::real) < 2 powi ?qx" by simp
  from dd d have dk: "d = of_int (round_half_even (d / 2 powi ?qd)) * 2 powi ?qd"
    by (simp add: is_double_def round_double_def)
  have rx: "round_double x = of_int (round_half_even (x / 2 powi ?qx)) * 2 powi ?qx"
    using x by (simp add: round_double_def)
  from ulp_exponent_mono [OF x le] have "?qx \<le> ?qd" .
  then consider "?qx = ?qd" | "?qx < ?qd" by linarith
  then show ?thesis
  proof cases
    case 1
    let ?k = "round_half_even (d / 2 powi ?qd)"
    from dk 1 have "x \<le> of_int ?k * 2 powi ?qx" using le by simp
    then have "x / 2 powi ?qx \<le> of_int ?k"
      using p by (simp add: field_simps)
    then have "round_half_even (x / 2 powi ?qx) \<le> ?k"
      by (rule round_half_even_le)
    then have "round_double x \<le> of_int ?k * 2 powi ?qx"
      unfolding rx using p by (simp add: mult_right_mono)
    with dk 1 show ?thesis by simp
  next
    case 2
    let ?ed = "binary_exponent d" and ?ex = "binary_exponent x"
    from 2 d x have ex: "max ?ex (- 1022) < ?ed"
      by (simp add: ulp_exponent_def abs_of_pos) linarith
    then have n: "0 \<le> ?ed - ?qx"
      using x by (auto simp add: ulp_exponent_def abs_of_pos max_def)
    have "(2::real) powi ?ed = 2 powi (?ed - ?qx) * 2 powi ?qx"
      by (simp flip: power_int_add)
    also have "(2::real) powi (?ed - ?qx) = of_int (2 ^ nat (?ed - ?qx))"
      using n by (simp add: power_int_def)
    finally have k: "(2::real) powi ?ed = of_int (2 ^ nat (?ed - ?qx)) * 2 powi ?qx" .
    from ex have "?ex + 1 \<le> ?ed" by simp
    then have "(2::real) powi (?ex + 1) \<le> 2 powi ?ed"
      by (rule power_int_increasing) simp
    with binary_exponent_bounds [OF x] have "x \<le> 2 powi ?ed" by linarith
    with k have "x / 2 powi ?qx \<le> of_int (2 ^ nat (?ed - ?qx))"
      using p by (simp add: field_simps)
    then have "round_half_even (x / 2 powi ?qx) \<le> 2 ^ nat (?ed - ?qx)"
      by (rule round_half_even_le)
    then have "round_double x \<le> of_int (2 ^ nat (?ed - ?qx)) * 2 powi ?qx"
      unfolding rx using p by (simp add: mult_right_mono)
    with k have "round_double x \<le> 2 powi ?ed" by simp
    with binary_exponent_bounds [OF d] show ?thesis by linarith
  qed
qed

lemma round_double_lower:
  assumes "is_double d" and "d \<le> y"
  shows "d \<le> round_double y"
proof -
  consider "0 < d" | "d = 0" | "d < 0" "0 \<le> y" | "d < 0" "y < 0" by linarith
  then show ?thesis
  proof cases
    case 1
    from round_double_lower_pos [OF 1 assms] show ?thesis .
  next
    case 2
    with assms(2) round_double_nonneg [of y] show ?thesis by simp
  next
    case 3
    with round_double_nonneg [of y] show ?thesis by simp
  next
    case 4
    from assms(1) have "is_double (- d)" by (simp add: is_double_minus)
    moreover from 4 have "0 < - y" by simp
    moreover from assms(2) have "- y \<le> - d" by simp
    ultimately have "round_double (- y) \<le> - d"
      by (intro round_double_upper_pos)
    then show ?thesis by (simp add: round_double_minus)
  qed
qed

lemma round_double_upper:
  assumes "is_double d" and "x \<le> d"
  shows "round_double x \<le> d"
proof -
  from assms have "is_double (- d)" and "- d \<le> - x"
    by (simp_all add: is_double_minus)
  then have "- d \<le> round_double (- x)" by (rule round_double_lower)
  then show ?thesis by (simp add: round_double_minus)
qed

section \<open>Evaluation\<close>

lemmas seg_defs =
  words_to_subtitles_def init_state_def seg_step_def decide_break_def apply_break_def
  place_word_def endswith_any_def endswith_def allowed_lines_def CRLF_def sentence_end_def

lemmas ieee_defs =
  round_double_def ulp_exponent_def binary_exponent_def round_half_even_def bits.simps
  is_double_def fadd_def fsub_def fmul_def fdiv_def Let_def

lemma replicate_2: "replicate 2 x = [x, x]"
  by (simp add: numeral_2_eq_2)

lemmas fmt_defs =
  srt_fmt_time_def fmt_zero_def py_int_def floordiv_def pymod_def c_fmod_def str_int_def
  digits.simps replicate_2

lemma fox_segmented:
  "words_to_subtitles fox_words p 32 =
     ([[\<lparr>word = ''the '', start_time = 0, end_time = round_double 0.3\<rparr>,
        \<lparr>word = ''quick '', start_time = round_double 0.3, end_time = round_double 0.6\<rparr>,
        \<lparr>word = ''brown '', start_time = round_double 0.6, end_time = round_double 0.9\<rparr>,
        \<lparr>word = ''fox.'' @ CRLF, start_time = round_double 0.9,
         end_time = round_double 1.3\<rparr>]], None)"
  by (simp add: fox_words_def seg_defs)

lemma fmt_time_0: "srt_fmt_time 0 = ''00:00:00,000''"
  by (simp add: fmt_defs ieee_defs)

lemma double_1300: "round_double 1.3 = 5854679515581645 / 2 ^ 52"
  by (simp add: ieee_defs)

lemma fmt_time_1300: "srt_fmt_time (round_double 1.3) = ''00:00:01,300''"
  unfolding double_1300 by (simp add: fmt_defs ieee_defs)

text \<open>
  The milliseconds are cut off after a rounded multiplication: 1.2 seconds are written as
  1,199, and an hour, a minute, a second and a half as one would expect.
\<close>

lemma double_1200: "round_double 1.2 = 5404319552844595 / 2 ^ 52"
  by (simp add: ieee_defs)

lemma fmt_time_1200: "srt_fmt_time (round_double 1.2) = ''00:00:01,199''"
  unfolding double_1200 by (simp add: fmt_defs ieee_defs)

lemma fmt_time_3661500: "srt_fmt_time 3661.5 = ''01:01:01,500''"
  by (simp add: fmt_defs ieee_defs)

lemma second_line_reached:
  "seg_step 32 init_state hi_word = Inr (None, second_line_state)"
  by (simp add: seg_defs hi_word_def second_line_state_def)

lemma line28_reached:
  "seg_loop 32 init_state (map six [0, 1, 2, 3]) = ([subtitle line28_state], None)
   \<and> seg_loop 32 line28_state [] = ([subtitle line28_state], None)"
  by (simp add: seg_defs six_def line28_state_def)

section \<open>The duration adjuster on short inputs\<close>

text \<open>
  C1. After the source is exhausted the adjuster is to emit the remaining cue unmodified,
  so an input of exactly one cue should come out as that cue. The statement after the loop
  yields \<open>this_sub\<close>, which is still \<open>None\<close> when the loop body never ran: an input of
  exactly one cue yields nothing at all.
\<close>

theorem C1_single_cue_dropped:
  "adjust_duration ([c], None) m = ([], None)"
  by (simp add: adjust_duration_def)

text \<open>
  C2. On the empty word stream the pipeline is to end normally, writing nothing. The
  segmenter yields no cue, \<open>next(subtitles)\<close> in the adjuster finds nothing, and the
  pipeline ends with \<open>RuntimeError\<close>; nothing is written.
\<close>

theorem C2_empty_stream_raises:
  "words_to_srt [] = ([], Some RuntimeError)"
  by (simp add: words_to_srt_def seg_defs adjust_duration_def write_srt_def)

section \<open>The example of the specification\<close>

text \<open>
  C6, as stated: the pipeline produces one cue with text \<open>the quick brown fox. \<close> for the
  example input. The pipeline writes nothing for it (one cue reaches the adjuster), and the
  text of the cue the segmenter builds does not end in a space.
\<close>

theorem C6_counterexample:
  "words_to_srt fox_words = ([], None)
   \<and> map sentence (fst (words_to_subtitles fox_words 1 32)) \<noteq> [''the quick brown fox. '']"
  by (simp add: words_to_srt_def fox_segmented adjust_duration_def write_srt_def
        sentence_def CRLF_def)

text \<open>
  C6, amended: for the example input with \<open>max_line_length = 32\<close> the segmenter produces
  exactly one cue; its text ends in the line-separator marker, \<open>the quick brown fox.\<close>
  followed by CR LF, and the renderer, given the segmenter's output, writes the index 1,
  the timecode line \<open>00:00:00,000 --> 00:00:01,300\<close>, that text and the blank line.
\<close>

theorem C6_example_segmented_and_rendered:
  "map sentence (fst (words_to_subtitles fox_words 1 32)) = [''the quick brown fox.'' @ CRLF]
   \<and> snd (words_to_subtitles fox_words 1 32) = None
   \<and> write_srt (words_to_subtitles fox_words 1 32) =
       ([''1'' @ [CHR 0x0A],
         ''00:00:00,000 --> 00:00:01,300'' @ [CHR 0x0A],
         ''the quick brown fox.'' @ CRLF @ [CHR 0x0A],
         [CHR 0x0A]], None)"
  by (simp add: fox_segmented write_srt_def sentence_def fmt_time_0 fmt_time_1300)
     (simp add: str_int_def digits.simps CRLF_def)

section \<open>The pause threshold\<close>

text \<open>
  C10. The cue sequence of the segmenter does not depend on \<open>split_on_pause_gt\<close>: any two
  values of the threshold give the same output for every word sequence and line length.
\<close>

theorem C10_pause_threshold_inert:
  "words_to_subtitles words p1 split_on_length_gt
     = words_to_subtitles words p2 split_on_length_gt"
  by (simp add: words_to_subtitles_def)

section \<open>The break decision of the segmenter\<close>

lemma seg_step_unfold:
  "seg_step L st w =
     (if len_line st + int (length (word w)) > L
      then (case apply_break True st of
              Inl e \<Rightarrow> Inl e
            | Inr (y, st2) \<Rightarrow> Inr (y, place_word (Some w) st2))
      else if sentence_end w
        then apply_break True (st\<lparr>subtitle := subtitle st @ [w]\<rparr>)
      else Inr (None, place_word (Some w) st))"
  by (auto simp add: seg_step_def decide_break_def sentence_end_def apply_break_def
        place_word_def split: sum.splits)

text \<open>
  C7, as stated: the first word on a fresh line is never rejected for length. At the start
  of the second line of a cue a word of 33 characters does trigger the length break: the
  cue is yielded and the word starts the next cue. On the empty buffer of a new cue the
  same word ends the run with \<open>IndexError\<close>.
\<close>

theorem C7_counterexample:
  "len_line second_line_state = 0
   \<and> seg_step 32 second_line_state long_word =
       Inr (Some (subtitle second_line_state),
            \<lparr>subtitle = [long_word\<lparr>word := word long_word @ '' ''\<rparr>],
             len_line = 34, line_index = 0\<rparr>)
   \<and> len_line init_state = 0
   \<and> seg_step 32 init_state long_word = Inl IndexError"
  by (simp add: seg_defs second_line_state_def long_word_def hi_word_def)

text \<open>
  C7, amended: a word that comes first on a fresh line (line length counter zero) passes
  the length check exactly when its own length does not exceed the maximum. If it does
  not, no length break is made and no error occurs: a word that does not end a sentence is
  buffered with its trailing space, one that does is appended and the sentence break is
  applied. If it does and the fresh line is the last line allowed in the cue, the buffer
  is yielded as a cue and the word becomes the first word of the next cue.
\<close>

theorem C7_fresh_line:
  assumes "len_line st = 0"
  shows "(int (length (word w)) \<le> L \<longrightarrow>
            seg_step L st w =
              (if sentence_end w then apply_break True (st\<lparr>subtitle := subtitle st @ [w]\<rparr>)
               else Inr (None, st\<lparr>len_line := int (length (word w)) + 1,
                                   subtitle := subtitle st @ [w\<lparr>word := word w @ '' ''\<rparr>]\<rparr>))
            \<and> (\<exists>r. seg_step L st w = Inr r))
       \<and> (int (length (word w)) > L \<longrightarrow> line_index st + 1 = allowed_lines \<longrightarrow>
            seg_step L st w =
              Inr (Some (subtitle st),
                   \<lparr>subtitle = [w\<lparr>word := word w @ '' ''\<rparr>],
                    len_line = int (length (word w)) + 1, line_index = 0\<rparr>))"
  using assms
  by (auto simp add: seg_step_def decide_break_def apply_break_def place_word_def
        sentence_end_def Let_def)

theorem C7_fresh_line_witness:
  "len_line init_state = 0 \<and> int (length (word (hd fox_words))) \<le> 32
   \<and> seg_step 32 init_state (hd fox_words) =
       Inr (None, \<lparr>subtitle = [\<lparr>word = ''the '', start_time = 0, end_time = round_double 0.3\<rparr>],
                   len_line = 4, line_index = 0\<rparr>)
   \<and> len_line second_line_state = 0 \<and> int (length (word long_word)) > 32
   \<and> line_index second_line_state + 1 = allowed_lines
   \<and> seg_step 32 second_line_state long_word =
       Inr (Some [hi_word\<lparr>word := ''Hi.'' @ CRLF\<rparr>],
            \<lparr>subtitle = [long_word\<lparr>word := word long_word @ '' ''\<rparr>],
             len_line = 34, line_index = 0\<rparr>)"
  using C7_fresh_line [of init_state "hd fox_words" 32]
        C7_fresh_line [of second_line_state long_word 32]
  by (simp add: init_state_def fox_words_def second_line_state_def long_word_def
        allowed_lines_def sentence_end_def endswith_any_def endswith_def)

text \<open>
  C8, as stated: a break is decided exactly when the word plus its trailing space would
  exceed the maximum or the word ends a sentence, and a sentence-end word is appended
  before the break also when it fails the length check. At line length 28 the word
  \<open>abcd\<close> would make 33 with its space, and no break is decided; the word \<open>abcd.\<close> fails
  the length check and is not appended before the break.
\<close>

theorem C8_counterexample:
  "spec_add_line 32 line28_state abcd
   \<and> \<not> fst (decide_break 32 line28_state abcd)
   \<and> spec_appended_before_break abcd_stop
   \<and> decide_break 32 line28_state abcd_stop = (True, line28_state, Some abcd_stop)"
  by (simp add: spec_add_line_def spec_appended_before_break_def seg_defs line28_state_def
        abcd_def abcd_stop_def)

text \<open>
  C8, amended: a break is decided exactly when the line length plus the length of the
  word's text, the trailing space not counted, exceeds the maximum, or the word's text
  ends in \<open>.\<close>, \<open>?\<close> or \<open>!\<close>. When the length check fires, the break is applied to the
  buffer as it is and the word is placed after it with its trailing space, whatever its
  ending. Only when the length check does not fire and the word ends a sentence is the
  word appended, without a trailing space, before the break is applied.
\<close>

theorem C8_break_decision:
  "fst (decide_break L st w) = (len_line st + int (length (word w)) > L \<or> sentence_end w)
   \<and> seg_step L st w =
       (if len_line st + int (length (word w)) > L
        then (case apply_break True st of
                Inl e \<Rightarrow> Inl e
              | Inr (y, st2) \<Rightarrow> Inr (y, place_word (Some w) st2))
        else if sentence_end w
          then apply_break True (st\<lparr>subtitle := subtitle st @ [w]\<rparr>)
        else Inr (None, place_word (Some w) st))"
  by (auto simp add: seg_step_def decide_break_def sentence_end_def apply_break_def
        place_word_def split: sum.splits)

theorem C8_break_decision_witness:
  "fst (decide_break 32 line28_state abcd) = False
   \<and> seg_step 32 line28_state abcd_stop =
       Inr (None,
         \<lparr>subtitle = map (\<lambda>t. (six t)\<lparr>word := ''aaaaaa ''\<rparr>) [0, 1, 2]
             @ [(six 3)\<lparr>word := ''aaaaaa '' @ CRLF\<rparr>, abcd_stop\<lparr>word := ''abcd. ''\<rparr>],
          len_line = 6, line_index = 1\<rparr>)"
  using C8_break_decision [of 32 line28_state abcd]
        C8_break_decision [of 32 line28_state abcd_stop]
  by (simp add: line28_state_def sentence_end_def endswith_any_def endswith_def
        apply_break_def place_word_def allowed_lines_def six_def abcd_def abcd_stop_def)

section \<open>Cues of the segmenter: never empty, never more than two lines\<close>

lemma count_markers_le: "count_markers s \<le> count_list s (CHR 0x0A)"
  by (induction s rule: count_markers.induct) (auto simp add: CRLF_def)

lemma sentence_append: "sentence (a @ b) = sentence a @ sentence b"
  by (simp add: sentence_def)

lemma sentence_single: "sentence [w] = word w"
  by (simp add: sentence_def)

lemma sentence_mark_last:
  "s \<noteq> [] \<Longrightarrow>
   sentence (butlast s @ [(last s)\<lparr>word := word (last s) @ CRLF\<rparr>]) = sentence s @ CRLF"
  by (cases s rule: rev_cases) (simp_all add: sentence_def)

lemma count_CRLF: "count_list CRLF (CHR 0x0A) = 1"
  by (simp add: CRLF_def)

lemma seg_inv_init: "seg_inv init_state"
  by (simp add: seg_inv_def init_state_def sentence_def)

lemma seg_inv_append:
  "seg_inv st \<Longrightarrow> CHR 0x0A \<notin> set (word w) \<Longrightarrow> seg_inv (st\<lparr>subtitle := subtitle st @ [w]\<rparr>)"
  by (simp add: seg_inv_def sentence_append sentence_single)

lemma seg_inv_place_word:
  "seg_inv st \<Longrightarrow> CHR 0x0A \<notin> set (word w) \<Longrightarrow> seg_inv (place_word (Some w) st)"
  by (simp add: seg_inv_def place_word_def sentence_append sentence_single)

lemma apply_break_inv:
  assumes "seg_inv st" and "apply_break True st = Inr (y, st2)"
  shows "seg_inv st2 \<and> (\<forall>c. y = Some c \<longrightarrow> cue_ok c)"
proof (cases "line_index st + 1 = allowed_lines")
  case True
  then have li: "line_index st = 1" by (simp add: allowed_lines_def)
  from assms(2) True have "y = Some (subtitle st)"
    and "st2 = \<lparr>subtitle = [], len_line = 0, line_index = 0\<rparr>"
    by (simp_all add: apply_break_def)
  with assms(1) li show ?thesis
    by (simp add: seg_inv_def cue_ok_def sentence_def)
next
  case False
  with assms(1) have li: "line_index st = 0"
    by (auto simp add: seg_inv_def allowed_lines_def)
  from assms(2) False have ne: "subtitle st \<noteq> []"
    by (auto simp add: apply_break_def split: if_splits)
  from assms(2) False ne have "y = None"
    and "st2 = \<lparr>subtitle = butlast (subtitle st)
                    @ [(last (subtitle st))\<lparr>word := word (last (subtitle st)) @ CRLF\<rparr>],
                 len_line = 0, line_index = line_index st + 1\<rparr>"
    by (simp_all add: apply_break_def)
  with assms(1) li ne show ?thesis
    by (simp add: seg_inv_def sentence_mark_last count_CRLF)
qed

lemma seg_step_inv:
  assumes inv: "seg_inv st" and w: "CHR 0x0A \<notin> set (word w)"
    and step: "seg_step L st w = Inr (y, st')"
  shows "seg_inv st' \<and> (\<forall>c. y = Some c \<longrightarrow> cue_ok c)"
proof (cases "len_line st + int (length (word w)) > L")
  case True
  with step obtain st2 where ab: "apply_break True st = Inr (y, st2)"
    and st': "st' = place_word (Some w) st2"
    by (auto simp add: seg_step_unfold split: sum.splits)
  from apply_break_inv [OF inv ab] seg_inv_place_word [OF _ w] st' show ?thesis
    by blast
next
  case False
  show ?thesis
  proof (cases "sentence_end w")
    case True
    with False step
    have "apply_break True (st\<lparr>subtitle := subtitle st @ [w]\<rparr>) = Inr (y, st')"
      by (simp add: seg_step_unfold)
    from apply_break_inv [OF seg_inv_append [OF inv w] this] show ?thesis .
  next
    case no: False
    with False step have "y = None" and "st' = place_word (Some w) st"
      by (simp_all add: seg_step_unfold)
    with seg_inv_place_word [OF inv w] show ?thesis by simp
  qed
qed

lemma seg_loop_inv:
  assumes "seg_inv st" and "\<forall>w\<in>set ws. CHR 0x0A \<notin> set (word w)"
  shows "\<forall>c\<in>set (fst (seg_loop L st ws)). cue_ok c"
  using assms
proof (induction ws arbitrary: st)
  case Nil
  then show ?case by (auto simp add: seg_inv_def cue_ok_def)
next
  case (Cons w ws)
  show ?case
  proof (cases "seg_step L st w")
    case (Inl e)
    then show ?thesis by simp
  next
    case (Inr r)
    obtain y st' where r: "r = (y, st')" by (cases r)
    from Cons.prems have w: "CHR 0x0A \<notin> set (word w)"
      and ws: "\<forall>w\<in>set ws. CHR 0x0A \<notin> set (word w)"
      by simp_all
    from seg_step_inv [OF Cons.prems(1) w] Inr r
    have inv: "seg_inv st'" and y: "\<forall>c. y = Some c \<longrightarrow> cue_ok c" by simp_all
    from Cons.IH [OF inv ws] have "\<forall>c\<in>set (fst (seg_loop L st' ws)). cue_ok c" .
    with y Inr r show ?thesis
      by (auto split: prod.splits option.splits)
  qed
qed

text \<open>
  C9. If no word text contains a line feed, every cue the segmenter yields, for any
  maximal line length and also before a run that ends in an error, is non-empty, spans at
  most \<open>allowed_lines\<close> physical lines and holds at most \<open>allowed_lines - 1\<close> markers.
\<close>

theorem C9_cues_nonempty_two_lines:
  assumes "\<forall>w\<in>set ws. CHR 0x0A \<notin> set (word w)"
  shows "\<forall>c\<in>set (fst (words_to_subtitles ws p L)).
           c \<noteq> [] \<and> physical_lines (sentence c) \<le> nat allowed_lines
           \<and> count_markers (sentence c) \<le> nat allowed_lines - 1"
proof
  fix c assume "c \<in> set (fst (words_to_subtitles ws p L))"
  with seg_loop_inv [OF seg_inv_init assms] have "cue_ok c"
    by (simp add: words_to_subtitles_def)
  moreover have "count_markers (sentence c) \<le> count_list (sentence c) (CHR 0x0A)"
    by (rule count_markers_le)
  ultimately show "c \<noteq> [] \<and> physical_lines (sentence c) \<le> nat allowed_lines
           \<and> count_markers (sentence c) \<le> nat allowed_lines - 1"
    by (simp add: cue_ok_def physical_lines_def allowed_lines_def)
qed

theorem C9_cues_nonempty_two_lines_witness:
  "list_all (\<lambda>w. CHR 0x0A \<notin> set (word w)) fox_words
   \<and> length (fst (words_to_subtitles fox_words 1 32)) = 1
   \<and> hd (fst (words_to_subtitles fox_words 1 32)) \<noteq> []
   \<and> physical_lines (sentence (hd (fst (words_to_subtitles fox_words 1 32)))) \<le> nat allowed_lines
   \<and> count_markers (sentence (hd (fst (words_to_subtitles fox_words 1 32))))
         \<le> nat allowed_lines - 1"
proof -
  have h: "\<forall>w\<in>set fox_words. CHR 0x0A \<notin> set (word w)"
    by (simp add: fox_words_def)
  have len: "length (fst (words_to_subtitles fox_words 1 32)) = 1"
    by (simp add: fox_segmented)
  then have "hd (fst (words_to_subtitles fox_words 1 32))
               \<in> set (fst (words_to_subtitles fox_words 1 32))"
    by (cases "fst (words_to_subtitles fox_words 1 32)") simp_all
  with h len C9_cues_nonempty_two_lines [OF h, of 1 32] show ?thesis
    by (simp add: list_all_iff)
qed

section \<open>The duration adjuster on two or more cues\<close>

lemma set_end_time_nonempty: "set_end_time c v \<noteq> []"
  by (simp add: set_end_time_def)

lemma cue_end_set_end_time: "cue_end (set_end_time c v) = v"
  by (simp add: set_end_time_def cue_end_def)

lemma cue_start_set_end_time: "c \<noteq> [] \<Longrightarrow> cue_start (set_end_time c v) = cue_start c"
  by (cases c rule: rev_cases) (auto simp add: set_end_time_def cue_start_def hd_append)

lemma set_end_time_same: "c \<noteq> [] \<Longrightarrow> set_end_time c (cue_end c) = c"
  by (cases c rule: rev_cases) (auto simp add: set_end_time_def cue_end_def)

text \<open>
  A cue that the test of line 127 finds too short ends, if its end time and the minimum
  are doubles, no later than the float sum of its start and the minimum.
\<close>

lemma short_cue_end_le_sum:
  assumes m: "is_double m" and e: "is_double e" and short: "\<not> m \<le> fsub e s"
  shows "e \<le> fadd s m"
proof -
  have "\<not> m \<le> e - s"
  proof
    assume "m \<le> e - s"
    with m have "m \<le> round_double (e - s)" by (rule round_double_lower)
    with short show False by (simp add: fsub_def)
  qed
  then have "e \<le> s + m" by simp
  with e have "e \<le> round_double (s + m)" by (rule round_double_lower)
  then show ?thesis by (simp add: fadd_def)
qed

lemma adjust_loop_no_overlap:
  assumes "prev \<noteq> []" and "\<forall>c\<in>set rest. c \<noteq> []"
    and "successively
           (\<lambda>a b. m \<le> fsub (cue_end a) (cue_start a) \<longrightarrow> cue_end a \<le> cue_start b)
           (prev # rest)"
  shows "\<exists>out. adjust_loop m None prev (Some prev) rest = (out, None)
           \<and> length out = Suc (length rest)
           \<and> successively (\<lambda>a b. cue_end a \<le> cue_start b) out
           \<and> cue_start (hd out) = cue_start prev"
  using assms
proof (induction rest arbitrary: prev)
  case Nil
  then show ?case by simp
next
  case (Cons t rest)
  from Cons.prems have t: "t \<noteq> []" and rest: "\<forall>c\<in>set rest. c \<noteq> []"
    and chain: "successively
        (\<lambda>a b. m \<le> fsub (cue_end a) (cue_start a) \<longrightarrow> cue_end a \<le> cue_start b) (t # rest)"
    and first: "m \<le> fsub (cue_end prev) (cue_start prev) \<longrightarrow> cue_end prev \<le> cue_start t"
    by simp_all
  from Cons.IH [OF t rest chain] obtain out where
    out: "adjust_loop m None t (Some t) rest = (out, None)"
    and len: "length out = Suc (length rest)"
    and succ: "successively (\<lambda>a b. cue_end a \<le> cue_start b) out"
    and hd: "cue_start (hd out) = cue_start t"
    by blast
  from len have ne: "out \<noteq> []" by auto
  show ?case
  proof (cases "m \<le> fsub (end_time (last prev)) (start_time (hd prev))")
    case True
    with first have "cue_end prev \<le> cue_start t"
      by (simp add: cue_end_def cue_start_def)
    with True Cons.prems(1) out len succ hd ne show ?thesis
      by (simp add: successively_Cons)
  next
    case False
    let ?p = "if fadd (start_time (hd prev)) m > start_time (hd t)
              then set_end_time prev (start_time (hd t))
              else set_end_time prev (fadd (start_time (hd prev)) m)"
    have run: "adjust_loop m None prev (Some prev) (t # rest) = (?p # out, None)"
      using False Cons.prems(1) t out by (simp add: Let_def)
    have e: "cue_end ?p \<le> cue_start t"
      by (simp add: cue_end_set_end_time cue_start_def)
    have s: "cue_start ?p = cue_start prev"
      using Cons.prems(1) by (simp add: cue_start_set_end_time)
    show ?thesis
      unfolding run using e s len succ hd ne
      by (simp add: successively_Cons)
  qed
qed

lemma adjust_loop_never_shrinks:
  assumes "prev \<noteq> []" and "\<forall>c\<in>set rest. c \<noteq> []"
    and "is_double m" and "\<forall>c\<in>set (prev # rest). is_double (cue_end c)"
    and "successively
           (\<lambda>a b. fsub (cue_end a) (cue_start a) < m \<longrightarrow> cue_end a \<le> cue_start b)
           (prev # rest)"
  shows "\<exists>out. adjust_loop m None prev (Some prev) rest = (out, None)
           \<and> list_all2 never_shrunk (prev # rest) out"
  using assms
proof (induction rest arbitrary: prev)
  case Nil
  then show ?case by (simp add: never_shrunk_def set_end_time_same)
next
  case (Cons t rest)
  from Cons.prems have t: "t \<noteq> []" and rest: "\<forall>c\<in>set rest. c \<noteq> []"
    and m: "is_double m" and de: "is_double (cue_end prev)"
    and dr: "\<forall>c\<in>set (t # rest). is_double (cue_end c)"
    and chain: "successively
        (\<lambda>a b. fsub (cue_end a) (cue_start a) < m \<longrightarrow> cue_end a \<le> cue_start b) (t # rest)"
    and first: "fsub (cue_end prev) (cue_start prev) < m \<longrightarrow> cue_end prev \<le> cue_start t"
    by simp_all
  from Cons.IH [OF t rest m dr chain] obtain out where
    out: "adjust_loop m None t (Some t) rest = (out, None)"
    and rel: "list_all2 never_shrunk (t # rest) out"
    by blast
  show ?case
  proof (cases "m \<le> fsub (end_time (last prev)) (start_time (hd prev))")
    case True
    have "never_shrunk prev prev"
      using Cons.prems(1) by (simp add: never_shrunk_def set_end_time_same)
    with True Cons.prems(1) out rel show ?thesis
      by simp
  next
    case False
    let ?p = "if fadd (start_time (hd prev)) m > start_time (hd t)
              then set_end_time prev (start_time (hd t))
              else set_end_time prev (fadd (start_time (hd prev)) m)"
    have run: "adjust_loop m None prev (Some prev) (t # rest) = (?p # out, None)"
      using False Cons.prems(1) t out by (simp add: Let_def)
    from False have short: "\<not> m \<le> fsub (cue_end prev) (cue_start prev)"
      by (simp add: cue_end_def cue_start_def)
    with first have "cue_end prev \<le> cue_start t" by simp
    moreover from short_cue_end_le_sum [OF m de short]
    have "cue_end prev \<le> fadd (cue_start prev) m" .
    ultimately have "never_shrunk prev ?p"
      by (simp add: never_shrunk_def cue_end_set_end_time cue_start_def)
    with rel show ?thesis
      unfolding run by simp
  qed
qed

text \<open>
  With two or more non-empty cues the statement after the loop does what it is there for:
  the adjuster ends normally and the last cue it yields is the last cue it was given,
  unmodified.
\<close>

lemma adjust_loop_last_cue:
  assumes "prev \<noteq> []" and "\<forall>c\<in>set rest. c \<noteq> []"
  shows "\<exists>out. adjust_loop m None prev (Some prev) rest = (out, None)
           \<and> out \<noteq> [] \<and> last out = last (prev # rest)"
  using assms
proof (induction rest arbitrary: prev)
  case Nil
  then show ?case by simp
next
  case (Cons t rest)
  from Cons.prems have t: "t \<noteq> []" and rest: "\<forall>c\<in>set rest. c \<noteq> []"
    by simp_all
  from Cons.IH [OF t rest] obtain out where
    out: "adjust_loop m None t (Some t) rest = (out, None)"
    and ne: "out \<noteq> []" and l: "last out = last (t # rest)"
    by blast
  with Cons.prems(1) t show ?case
    by (simp add: Let_def)
qed

lemma adjust_duration_last_cue:
  assumes "\<forall>c\<in>set cs. c \<noteq> []" and "2 \<le> length cs"
  shows "\<exists>out. adjust_duration (cs, None) m = (out, None)
           \<and> out \<noteq> [] \<and> last out = last cs"
proof -
  from assms(2) obtain first t rest where cs: "cs = first # t # rest"
    by (cases cs; cases "tl cs") auto
  with assms(1) have "first \<noteq> []" and "\<forall>c\<in>set (t # rest). c \<noteq> []"
    by simp_all
  from adjust_loop_last_cue [OF this, of m] show ?thesis
    by (simp add: adjust_duration_def cs)
qed

lemma example_cues_adjusted:
  "adjust_duration (example_cues, None) 1 =
     ([[\<lparr>word = ''a '', start_time = 0, end_time = 0.5\<rparr>],
       [\<lparr>word = ''b '', start_time = 0.5, end_time = 1.5\<rparr>],
       [\<lparr>word = ''c '', start_time = 5, end_time = 7\<rparr>],
       [\<lparr>word = ''d '', start_time = 7, end_time = 7.5\<rparr>]], None)"
  by (simp add: adjust_duration_def example_cues_def set_end_time_def ieee_defs)

text \<open>
  The duration test is the one of float arithmetic. For a cue from 0.2 to 1.2 the
  difference of the two doubles is below 1, and the float subtraction gives 1.0: the cue
  counts as long enough and is passed through, though the next cue starts at 0.5. For a
  cue from 0.4 to 1.4 the float subtraction gives less than 1.0: the cue counts as too
  short and its end is set to the start of the next cue, 1.
\<close>

lemma double_200: "round_double 0.2 = 3602879701896397 / 2 ^ 54"
  by (simp add: ieee_defs)

lemma double_400: "round_double 0.4 = 3602879701896397 / 2 ^ 53"
  by (simp add: ieee_defs)

lemma double_1400: "round_double 1.4 = 6305039478318694 / 2 ^ 52"
  by (simp add: ieee_defs)

lemma rounded_durations:
  "round_double 1.2 - round_double 0.2 < 1
   \<and> fsub (round_double 1.2) (round_double 0.2) = 1
   \<and> fsub (round_double 1.4) (round_double 0.4) < 1"
  unfolding double_200 double_400 double_1200 double_1400
  by (simp add: ieee_defs)

lemma rounded_up_cues_adjusted:
  "adjust_duration (rounded_up_cues, None) 1 = (rounded_up_cues, None)"
  using rounded_durations
  by (simp add: adjust_duration_def rounded_up_cues_def)

lemma rounded_down_cues_adjusted:
  "adjust_duration (rounded_down_cues, None) 1 =
     ([[\<lparr>word = ''a '', start_time = round_double 0.4, end_time = 1\<rparr>],
       [\<lparr>word = ''b '', start_time = 1, end_time = 3\<rparr>]], None)"
proof -
  have "1 < fadd (round_double 0.4) 1"
    unfolding double_400 by (simp add: ieee_defs)
  with rounded_durations show ?thesis
    by (simp add: adjust_duration_def rounded_down_cues_def set_end_time_def)
qed

text \<open>
  C3, as stated: for cues with non-decreasing start times and words that end no earlier
  than they start, adjacent cues that come out do not overlap. A cue from 0 to 5 followed
  by one that starts at 1 is long enough, is passed through as it is, and ends after the
  next one starts.
\<close>

theorem C3_counterexample:
  "successively (\<lambda>a b. cue_start a \<le> cue_start b) long_overlap_cues
   \<and> list_all (list_all (\<lambda>w. start_time w \<le> end_time w)) long_overlap_cues
   \<and> length (fst (adjust_duration (long_overlap_cues, None) 1)) = 2
   \<and> \<not> cue_end (fst (adjust_duration (long_overlap_cues, None) 1) ! 0)
          \<le> cue_start (fst (adjust_duration (long_overlap_cues, None) 1) ! 1)"
  by (simp add: adjust_duration_def long_overlap_cues_def cue_end_def cue_start_def ieee_defs)

text \<open>
  C3, amended: for every sequence of non-empty cues with non-decreasing start times and
  words that end no earlier than they start, in which moreover every cue that the
  adjuster's own test finds long enough (the float difference of its end and its start is
  at least \<open>min_sub_duration\<close>) ends no later than the next cue starts, every pair of
  adjacent cues that comes out satisfies \<open>end_time[i] \<le> start_time[i+1]\<close>.
\<close>

theorem C3_adjacent_cues_do_not_overlap:
  assumes "\<forall>c\<in>set cs. c \<noteq> []"
    and "\<forall>i. Suc i < length cs \<longrightarrow> cue_start (cs ! i) \<le> cue_start (cs ! Suc i)"
    and "\<forall>c\<in>set cs. \<forall>w\<in>set c. start_time w \<le> end_time w"
    and "\<forall>i. Suc i < length cs \<longrightarrow>
           (m \<le> fsub (cue_end (cs ! i)) (cue_start (cs ! i)) \<longrightarrow>
            cue_end (cs ! i) \<le> cue_start (cs ! Suc i))"
  shows "\<forall>i. Suc i < length (fst (adjust_duration (cs, None) m)) \<longrightarrow>
           cue_end (fst (adjust_duration (cs, None) m) ! i)
             \<le> cue_start (fst (adjust_duration (cs, None) m) ! Suc i)"
proof (cases cs)
  case Nil
  then show ?thesis by (simp add: adjust_duration_def)
next
  case (Cons first rest)
  show ?thesis
  proof (cases rest)
    case Nil
    with Cons show ?thesis by (simp add: adjust_duration_def)
  next
    case (Cons t r)
    have chain: "successively
        (\<lambda>a b. m \<le> fsub (cue_end a) (cue_start a) \<longrightarrow> cue_end a \<le> cue_start b)
        (first # rest)"
      using assms(4) \<open>cs = first # rest\<close> by (simp only: successively_conv_nth)
    from assms(1) \<open>cs = first # rest\<close> have ne: "first \<noteq> []" "\<forall>c\<in>set rest. c \<noteq> []"
      by simp_all
    from adjust_loop_no_overlap [OF ne chain] obtain out where
      out: "adjust_loop m None first (Some first) rest = (out, None)"
      and succ: "successively (\<lambda>a b. cue_end a \<le> cue_start b) out"
      by blast
    have "adjust_duration (cs, None) m = (out, None)"
      using out \<open>cs = first # rest\<close> Cons by (simp add: adjust_duration_def)
    with succ show ?thesis
      by (simp add: successively_conv_nth)
  qed
qed

theorem C3_adjacent_cues_do_not_overlap_witness:
  "list_all (\<lambda>c. c \<noteq> []) example_cues
   \<and> successively (\<lambda>a b. cue_start a \<le> cue_start b) example_cues
   \<and> list_all (list_all (\<lambda>w. start_time w \<le> end_time w)) example_cues
   \<and> successively
        (\<lambda>a b. 1 \<le> fsub (cue_end a) (cue_start a) \<longrightarrow> cue_end a \<le> cue_start b)
        example_cues
   \<and> length (fst (adjust_duration (example_cues, None) 1)) = 4
   \<and> cue_end (fst (adjust_duration (example_cues, None) 1) ! 0)
        \<le> cue_start (fst (adjust_duration (example_cues, None) 1) ! Suc 0)
   \<and> cue_end (fst (adjust_duration (example_cues, None) 1) ! 1)
        \<le> cue_start (fst (adjust_duration (example_cues, None) 1) ! Suc 1)
   \<and> cue_end (fst (adjust_duration (example_cues, None) 1) ! 2)
        \<le> cue_start (fst (adjust_duration (example_cues, None) 1) ! Suc 2)"
proof -
  have l1: "list_all (\<lambda>c. c \<noteq> []) example_cues"
    by (simp add: example_cues_def)
  then have h1: "\<forall>c\<in>set example_cues. c \<noteq> []"
    by (simp add: list_all_iff)
  have s2: "successively (\<lambda>a b. cue_start a \<le> cue_start b) example_cues"
    by (simp add: example_cues_def cue_start_def)
  then have h2: "\<forall>i. Suc i < length example_cues \<longrightarrow>
      cue_start (example_cues ! i) \<le> cue_start (example_cues ! Suc i)"
    by (simp only: successively_conv_nth)
  have l3: "list_all (list_all (\<lambda>w. start_time w \<le> end_time w)) example_cues"
    by (simp add: example_cues_def)
  then have h3: "\<forall>c\<in>set example_cues. \<forall>w\<in>set c. start_time w \<le> end_time w"
    by (simp add: list_all_iff)
  have s4: "successively
      (\<lambda>a b. 1 \<le> fsub (cue_end a) (cue_start a) \<longrightarrow> cue_end a \<le> cue_start b) example_cues"
    by (simp add: example_cues_def cue_start_def cue_end_def ieee_defs)
  then have h4: "\<forall>i. Suc i < length example_cues \<longrightarrow>
      (1 \<le> fsub (cue_end (example_cues ! i)) (cue_start (example_cues ! i)) \<longrightarrow>
       cue_end (example_cues ! i) \<le> cue_start (example_cues ! Suc i))"
    by (simp only: successively_conv_nth)
  have len: "length (fst (adjust_duration (example_cues, None) 1)) = 4"
    by (simp add: example_cues_adjusted)
  note concl = C3_adjacent_cues_do_not_overlap [OF h1 h2 h3 h4, rule_format]
  have "cue_end (fst (adjust_duration (example_cues, None) 1) ! 0)
          \<le> cue_start (fst (adjust_duration (example_cues, None) 1) ! Suc 0)"
    by (rule concl) (simp add: len)
  moreover have "cue_end (fst (adjust_duration (example_cues, None) 1) ! 1)
          \<le> cue_start (fst (adjust_duration (example_cues, None) 1) ! Suc 1)"
    by (rule concl) (simp add: len)
  moreover have "cue_end (fst (adjust_duration (example_cues, None) 1) ! 2)
          \<le> cue_start (fst (adjust_duration (example_cues, None) 1) ! Suc 2)"
    by (rule concl) (simp add: len)
  ultimately show ?thesis
    using l1 s2 l3 s4 len by blast
qed

text \<open>
  C4, as stated: for every input the end time of a cue is never decreased. A cue from 0
  to 0.5 followed by one that starts at 0.25 is too short, and its end time is set to the
  start of the next cue, 0.25.
\<close>

theorem C4_counterexample:
  "length (fst (adjust_duration (short_overlap_cues, None) 1)) = 2
   \<and> \<not> cue_end (short_overlap_cues ! 0)
          \<le> cue_end (fst (adjust_duration (short_overlap_cues, None) 1) ! 0)"
  by (simp add: adjust_duration_def short_overlap_cues_def cue_end_def set_end_time_def
        ieee_defs)

text \<open>
  C4, amended: take a sequence of non-empty cues whose end times are doubles, a minimum
  duration that is a double, and suppose that every cue that the adjuster's own test
  finds too short (the float difference of its end and its start is below
  \<open>min_sub_duration\<close>) ends no later than the next cue starts. Then each cue that comes
  out is the input cue at the same position with nothing changed but the end time of its
  last word, and that end time is greater than or equal to the original one.
\<close>

theorem C4_end_time_never_decreased:
  assumes "\<forall>c\<in>set cs. c \<noteq> []"
    and "is_double m"
    and "\<forall>c\<in>set cs. is_double (cue_end c)"
    and "\<forall>i. Suc i < length cs \<longrightarrow>
           (fsub (cue_end (cs ! i)) (cue_start (cs ! i)) < m \<longrightarrow>
            cue_end (cs ! i) \<le> cue_start (cs ! Suc i))"
  shows "\<forall>i. i < length (fst (adjust_duration (cs, None) m)) \<longrightarrow>
           never_shrunk (cs ! i) (fst (adjust_duration (cs, None) m) ! i)"
proof (cases cs)
  case Nil
  then show ?thesis by (simp add: adjust_duration_def)
next
  case (Cons first rest)
  show ?thesis
  proof (cases rest)
    case Nil
    with Cons show ?thesis by (simp add: adjust_duration_def)
  next
    case (Cons t r)
    have chain: "successively
        (\<lambda>a b. fsub (cue_end a) (cue_start a) < m \<longrightarrow> cue_end a \<le> cue_start b)
        (first # rest)"
      using assms(4) \<open>cs = first # rest\<close> by (simp only: successively_conv_nth)
    from assms(1) \<open>cs = first # rest\<close> have ne: "first \<noteq> []" "\<forall>c\<in>set rest. c \<noteq> []"
      by simp_all
    from assms(3) \<open>cs = first # rest\<close> have dd: "\<forall>c\<in>set (first # rest). is_double (cue_end c)"
      by simp
    from adjust_loop_never_shrinks [OF ne assms(2) dd chain] obtain out where
      out: "adjust_loop m None first (Some first) rest = (out, None)"
      and rel: "list_all2 never_shrunk (first # rest) out"
      by blast
    have "adjust_duration (cs, None) m = (out, None)"
      using out \<open>cs = first # rest\<close> Cons by (simp add: adjust_duration_def)
    with rel \<open>cs = first # rest\<close> show ?thesis
      by (simp add: list_all2_conv_all_nth)
  qed
qed

theorem C4_end_time_never_decreased_witness:
  "list_all (\<lambda>c. c \<noteq> []) example_cues
   \<and> is_double 1
   \<and> list_all (\<lambda>c. is_double (cue_end c)) example_cues
   \<and> successively
        (\<lambda>a b. fsub (cue_end a) (cue_start a) < 1 \<longrightarrow> cue_end a \<le> cue_start b)
        example_cues
   \<and> map cue_end example_cues = [0.25, 0.75, 7, 7.5]
   \<and> map cue_end (fst (adjust_duration (example_cues, None) 1)) = [0.5, 1.5, 7, 7.5]
   \<and> never_shrunk (example_cues ! 0) (fst (adjust_duration (example_cues, None) 1) ! 0)
   \<and> never_shrunk (example_cues ! 1) (fst (adjust_duration (example_cues, None) 1) ! 1)
   \<and> never_shrunk (example_cues ! 2) (fst (adjust_duration (example_cues, None) 1) ! 2)
   \<and> never_shrunk (example_cues ! 3) (fst (adjust_duration (example_cues, None) 1) ! 3)"
proof -
  have l1: "list_all (\<lambda>c. c \<noteq> []) example_cues"
    by (simp add: example_cues_def)
  then have h1: "\<forall>c\<in>set example_cues. c \<noteq> []"
    by (simp add: list_all_iff)
  have hm: "is_double 1"
    by (simp add: ieee_defs)
  have l3: "list_all (\<lambda>c. is_double (cue_end c)) example_cues"
    by (simp add: example_cues_def cue_end_def ieee_defs)
  then have h3: "\<forall>c\<in>set example_cues. is_double (cue_end c)"
    by (simp add: list_all_iff)
  have s4: "successively
      (\<lambda>a b. fsub (cue_end a) (cue_start a) < 1 \<longrightarrow> cue_end a \<le> cue_start b) example_cues"
    by (simp add: example_cues_def cue_start_def cue_end_def ieee_defs)
  then have h4: "\<forall>i. Suc i < length example_cues \<longrightarrow>
      (fsub (cue_end (example_cues ! i)) (cue_start (example_cues ! i)) < 1 \<longrightarrow>
       cue_end (example_cues ! i) \<le> cue_start (example_cues ! Suc i))"
    by (simp only: successively_conv_nth)
  have e1: "map cue_end example_cues = [0.25, 0.75, 7, 7.5]"
    by (simp add: example_cues_def cue_end_def)
  have e2: "map cue_end (fst (adjust_duration (example_cues, None) 1)) = [0.5, 1.5, 7, 7.5]"
    by (simp add: example_cues_adjusted cue_end_def)
  have len: "length (fst (adjust_duration (example_cues, None) 1)) = 4"
    by (simp add: example_cues_adjusted)
  note concl = C4_end_time_never_decreased [OF h1 hm h3 h4, rule_format]
  have "never_shrunk (example_cues ! 0) (fst (adjust_duration (example_cues, None) 1) ! 0)"
    by (rule concl) (simp add: len)
  moreover
  have "never_shrunk (example_cues ! 1) (fst (adjust_duration (example_cues, None) 1) ! 1)"
    by (rule concl) (simp add: len)
  moreover
  have "never_shrunk (example_cues ! 2) (fst (adjust_duration (example_cues, None) 1) ! 2)"
    by (rule concl) (simp add: len)
  moreover
  have "never_shrunk (example_cues ! 3) (fst (adjust_duration (example_cues, None) 1) ! 3)"
    by (rule concl) (simp add: len)
  ultimately show ?thesis
    using l1 hm l3 s4 e1 e2 by blast
qed

section \<open>Word texts through the pipeline\<close>

lemma endswith_append: "endswith (s @ suf) suf"
  by (simp add: endswith_def)

lemma endswith_last: "endswith s suf \<Longrightarrow> suf \<noteq> [] \<Longrightarrow> s \<noteq> [] \<and> last s = last suf"
proof -
  assume e: "endswith s suf" and ne: "suf \<noteq> []"
  from e have "s = take (length s - length suf) s @ suf"
    by (metis append_take_drop_id endswith_def)
  with ne show ?thesis
    by (metis append_is_Nil_conv last_appendR)
qed

lemma strip_marker_append: "strip_marker (s @ CRLF) = s"
  by (simp add: strip_marker_def endswith_append)

lemma strip_marker_other: "s \<noteq> [] \<Longrightarrow> last s \<noteq> CHR 0x0A \<Longrightarrow> strip_marker s = s"
  using endswith_last [of s CRLF] by (auto simp add: strip_marker_def CRLF_def)

lemma strip_space_append: "strip_space (s @ '' '') = s"
  using endswith_append [of s "'' ''"] by (simp add: strip_space_def)

lemma strip_space_other: "s \<noteq> [] \<Longrightarrow> last s \<noteq> CHR '' '' \<Longrightarrow> strip_space s = s"
  using endswith_last [of s "'' ''"] by (auto simp add: strip_space_def)

lemma sentence_end_last:
  assumes "sentence_end w"
  shows "word w \<noteq> [] \<and> last (word w) \<in> {CHR ''.'', CHR ''?'', CHR ''!''}"
  using assms endswith_last [of "word w" "''.''"] endswith_last [of "word w" "''?''"]
    endswith_last [of "word w" "''!''"]
  by (auto simp add: sentence_end_def endswith_any_def)

lemma restore_spaced: "restore (w\<lparr>word := word w @ '' ''\<rparr>) = w"
  by (simp add: restore_def strip_inserted_def strip_marker_other strip_space_append)

lemma restore_sentence_end: "sentence_end w \<Longrightarrow> restore w = w"
  using sentence_end_last [of w]
  by (auto simp add: restore_def strip_inserted_def strip_marker_other strip_space_other)

lemma restore_sentence_end_marked:
  "sentence_end w \<Longrightarrow> restore (w\<lparr>word := word w @ CRLF\<rparr>) = w"
  using sentence_end_last [of w]
  by (auto simp add: restore_def strip_inserted_def strip_marker_append strip_space_other)

lemma restore_marked:
  assumes "endswith (word r) '' ''"
  shows "restore (r\<lparr>word := word r @ CRLF\<rparr>) = restore r"
proof -
  from endswith_last [OF assms] have "word r \<noteq> []" and "last (word r) \<noteq> CHR 0x0A"
    by simp_all
  then show ?thesis
    by (simp add: restore_def strip_inserted_def strip_marker_append strip_marker_other)
qed

lemma map_restore_mark_last:
  assumes "s \<noteq> []"
    and "restore ((last s)\<lparr>word := word (last s) @ CRLF\<rparr>) = restore (last s)"
  shows "map restore (butlast s @ [(last s)\<lparr>word := word (last s) @ CRLF\<rparr>]) = map restore s"
proof -
  from assms(1) have "map restore s = map restore (butlast s @ [last s])" by simp
  with assms(2) show ?thesis by simp
qed

lemma apply_break_round_trip:
  assumes li: "line_index st = 0 \<or> line_index st = 1"
    and mark: "line_index st = 0 \<longrightarrow> subtitle st \<noteq> [] \<longrightarrow>
       restore ((last (subtitle st))\<lparr>word := word (last (subtitle st)) @ CRLF\<rparr>)
         = restore (last (subtitle st))"
    and ab: "apply_break True st = Inr (y, st2)"
  shows "(line_index st2 = 0 \<or> line_index st2 = 1)
       \<and> (line_index st2 = 0 \<longrightarrow> subtitle st2 = [])
       \<and> map restore (case y of None \<Rightarrow> [] | Some c \<Rightarrow> c) @ map restore (subtitle st2)
           = map restore (subtitle st)"
proof (cases "line_index st + 1 = allowed_lines")
  case True
  with ab have "y = Some (subtitle st)"
    and "st2 = \<lparr>subtitle = [], len_line = 0, line_index = 0\<rparr>"
    by (simp_all add: apply_break_def)
  then show ?thesis by simp
next
  case False
  with li have l0: "line_index st = 0"
    by (auto simp add: allowed_lines_def)
  from ab False have ne: "subtitle st \<noteq> []"
    by (auto simp add: apply_break_def split: if_splits)
  from ab False ne have y: "y = None"
    and st2: "st2 = \<lparr>subtitle = butlast (subtitle st)
                    @ [(last (subtitle st))\<lparr>word := word (last (subtitle st)) @ CRLF\<rparr>],
                 len_line = 0, line_index = line_index st + 1\<rparr>"
    by (simp_all add: apply_break_def)
  from mark l0 ne map_restore_mark_last [OF ne]
  have "map restore (subtitle st2) = map restore (subtitle st)"
    by (simp add: st2)
  with y st2 l0 show ?thesis by simp
qed

lemma rt_inv_place_word:
  "line_index st = 0 \<or> line_index st = 1 \<Longrightarrow> rt_inv (place_word (Some w) st)"
  by (simp add: rt_inv_def place_word_def endswith_append)

lemma restore_place_word:
  "map restore (subtitle (place_word (Some w) st)) = map restore (subtitle st) @ [w]"
  by (simp add: place_word_def restore_spaced)

lemma seg_step_round_trip:
  assumes inv: "rt_inv st" and step: "seg_step L st w = Inr (y, st')"
  shows "rt_inv st'
       \<and> map restore (case y of None \<Rightarrow> [] | Some c \<Rightarrow> c) @ map restore (subtitle st')
           = map restore (subtitle st) @ [w]"
proof (cases "len_line st + int (length (word w)) > L")
  case True
  with step obtain st2 where ab: "apply_break True st = Inr (y, st2)"
    and st': "st' = place_word (Some w) st2"
    by (auto simp add: seg_step_unfold split: sum.splits)
  from inv have li: "line_index st = 0 \<or> line_index st = 1"
    and mark: "line_index st = 0 \<longrightarrow> subtitle st \<noteq> [] \<longrightarrow>
       restore ((last (subtitle st))\<lparr>word := word (last (subtitle st)) @ CRLF\<rparr>)
         = restore (last (subtitle st))"
    by (simp_all add: rt_inv_def restore_marked)
  from apply_break_round_trip [OF li mark ab]
  have l2: "line_index st2 = 0 \<or> line_index st2 = 1"
    and eq: "map restore (case y of None \<Rightarrow> [] | Some c \<Rightarrow> c) @ map restore (subtitle st2)
           = map restore (subtitle st)"
    by simp_all
  from rt_inv_place_word [OF l2] eq show ?thesis
    by (simp add: st' restore_place_word)
next
  case False
  show ?thesis
  proof (cases "sentence_end w")
    case True
    let ?st1 = "st\<lparr>subtitle := subtitle st @ [w]\<rparr>"
    from False True step have ab: "apply_break True ?st1 = Inr (y, st')"
      by (simp add: seg_step_unfold)
    from inv have li: "line_index ?st1 = 0 \<or> line_index ?st1 = 1"
      by (simp add: rt_inv_def)
    have mark: "line_index ?st1 = 0 \<longrightarrow> subtitle ?st1 \<noteq> [] \<longrightarrow>
       restore ((last (subtitle ?st1))\<lparr>word := word (last (subtitle ?st1)) @ CRLF\<rparr>)
         = restore (last (subtitle ?st1))"
      using True by (simp add: restore_sentence_end restore_sentence_end_marked)
    from apply_break_round_trip [OF li mark ab] True show ?thesis
      by (auto simp add: rt_inv_def restore_sentence_end)
  next
    case no: False
    with False step have "y = None" and "st' = place_word (Some w) st"
      by (simp_all add: seg_step_unfold)
    moreover from inv have "line_index st = 0 \<or> line_index st = 1"
      by (simp add: rt_inv_def)
    ultimately show ?thesis
      using rt_inv_place_word [of st w] by (simp add: restore_place_word)
  qed
qed

lemma seg_loop_round_trip:
  assumes "rt_inv st" and "seg_loop L st ws = (out, None)"
  shows "map restore (concat out) = map restore (subtitle st) @ ws"
  using assms
proof (induction ws arbitrary: st out)
  case Nil
  then show ?case by (auto split: if_splits)
next
  case (Cons w ws)
  from Cons.prems(2) obtain y st' out' where step: "seg_step L st w = Inr (y, st')"
    and rest: "seg_loop L st' ws = (out', None)"
    and out: "out = (case y of None \<Rightarrow> [] | Some c \<Rightarrow> [c]) @ out'"
    by (auto split: sum.splits prod.splits)
  from seg_step_round_trip [OF Cons.prems(1) step]
  have inv: "rt_inv st'"
    and eq: "map restore (case y of None \<Rightarrow> [] | Some c \<Rightarrow> c) @ map restore (subtitle st')
           = map restore (subtitle st) @ [w]"
    by simp_all
  from Cons.IH [OF inv rest] have "map restore (concat out') = map restore (subtitle st') @ ws" .
  with eq out show ?case
    by (cases y) simp_all
qed

text \<open>
  The segmenter alone loses and duplicates nothing: whenever it runs to the end, taking
  the marker and the trailing space off the words of its cues gives back the word
  sequence it was given, records and order included.
\<close>

lemma segmenter_round_trip:
  assumes "snd (words_to_subtitles ws p L) = None"
  shows "map restore (concat (fst (words_to_subtitles ws p L))) = ws"
proof -
  have "rt_inv init_state"
    by (simp add: rt_inv_def init_state_def)
  moreover from assms have "seg_loop L init_state ws = (fst (seg_loop L init_state ws), None)"
    by (simp add: words_to_subtitles_def prod_eq_iff)
  ultimately have "map restore (concat (fst (seg_loop L init_state ws)))
                     = map restore (subtitle init_state) @ ws"
    by (rule seg_loop_round_trip)
  then show ?thesis
    by (simp add: words_to_subtitles_def init_state_def)
qed

lemma map_word_set_end_time: "c \<noteq> [] \<Longrightarrow> map word (set_end_time c v) = map word c"
  by (cases c rule: rev_cases) (simp_all add: set_end_time_def)

text \<open>
  The adjuster, given two or more non-empty cues, yields as many cues as it was given, with
  the same word texts.
\<close>

lemma adjust_loop_keeps_words:
  assumes "prev \<noteq> []" and "\<forall>c\<in>set rest. c \<noteq> []"
  shows "\<exists>out. adjust_loop m None prev (Some prev) rest = (out, None)
           \<and> map (map word) out = map (map word) (prev # rest)"
  using assms
proof (induction rest arbitrary: prev)
  case Nil
  then show ?case by simp
next
  case (Cons t rest)
  from Cons.prems have t: "t \<noteq> []" and rest: "\<forall>c\<in>set rest. c \<noteq> []"
    by simp_all
  from Cons.IH [OF t rest] obtain out where
    out: "adjust_loop m None t (Some t) rest = (out, None)"
    and w: "map (map word) out = map (map word) (t # rest)"
    by blast
  with Cons.prems(1) t show ?case
    by (simp add: Let_def map_word_set_end_time)
qed

lemma adjust_duration_keeps_words:
  assumes "\<forall>c\<in>set cs. c \<noteq> []" and "2 \<le> length cs"
  shows "\<exists>out. adjust_duration (cs, None) m = (out, None)
           \<and> map (map word) out = map (map word) cs"
proof -
  from assms(2) obtain first t rest where cs: "cs = first # t # rest"
    by (cases cs; cases "tl cs") auto
  with assms(1) have "first \<noteq> []" and "\<forall>c\<in>set (t # rest). c \<noteq> []"
    by simp_all
  from adjust_loop_keeps_words [OF this, of m] show ?thesis
    by (simp add: adjust_duration_def cs)
qed

text \<open>
  C5. Taking markers and trailing spaces off the text the pipeline renders is to give back
  the words of the input, none lost. For the one word \<open>hello\<close> the segmenter builds the cue
  that holds it, and the pipeline ends normally without having written anything: the word
  is lost. (The cue is the only one, and the adjuster drops it; see C1.)
\<close>

theorem C5_single_cue_words_lost:
  "map restore (concat (fst (words_to_subtitles [hello_word] 1 32))) = [hello_word]
   \<and> adjust_duration (words_to_subtitles [hello_word] 1 32) 1 = ([], None)
   \<and> words_to_srt [hello_word] = ([], None)"
proof -
  have seg: "words_to_subtitles [hello_word] 1 32 = ([[hello_word\<lparr>word := ''hello ''\<rparr>]], None)"
    by (simp add: seg_defs hello_word_def)
  have "restore (hello_word\<lparr>word := ''hello ''\<rparr>) = hello_word"
    using restore_spaced [of hello_word] by (simp add: hello_word_def)
  with seg show ?thesis
    by (simp add: words_to_srt_def adjust_duration_def write_srt_def)
qed

end
